theory Spec2Isabelle
  imports Complex_Main "HOL-Library.AList"
begin

section \<open>Exceptions\<close>

text \<open>
  Every exception that the modelled code can raise is a value.  \<open>CallableOnCooldown\<close>
  carries the retry-after duration.  \<open>RecursionError\<close> is what the interpreter raises
  when the nesting of calls exceeds its limit.  \<open>Raised\<close> stands for any exception of
  caller-supplied code (the wrapped callable, a check predicate, a custom bucket).
\<close>

datatype exn =
    RuntimeError string
  | RecursionError
  | NonExistent
  | CallableOnCooldown real
  | Raised string

section \<open>Bucket keys and bucket strategies\<close>

text \<open>
  Modelled from the spec: the class \<open>_HashableArguments\<close> of \<open>cooldowns/buckets.py\<close>.
  A key holds the positional values in order and the keyword mapping; two keys are equal
  iff both agree.  The spec gives a key neither a length nor a boolean conversion, so an
  instance is truthy and only \<open>None\<close> is falsy in \<open>if not bucket\<close>.
\<close>

datatype 'v HashableArguments =
  HashableArguments (args: "'v list") (kwargs: "string \<rightharpoonup> 'v")

text \<open>
  Modelled from the spec: the enumeration \<open>CooldownBucket\<close> with its members
  \<open>all\<close>, \<open>args\<close> and \<open>kwargs\<close>; \<open>Bucket_custom\<close> is any other object with a
  \<open>process\<close> method, which may raise.  Its first field is the truth value of the
  object, which \<open>bucket or CooldownBucket.all\<close> tests; the members of an enumeration
  are truthy.
\<close>

datatype 'v CooldownBucket =
    Bucket_all
  | Bucket_args
  | Bucket_kwargs
  | Bucket_custom bool "'v list \<Rightarrow> (string \<rightharpoonup> 'v) \<Rightarrow> exn + 'v"

fun bucket_truthy :: "'v CooldownBucket \<Rightarrow> bool" where
  "bucket_truthy (Bucket_custom truth process) = truth"
| "bucket_truthy b = True"

section \<open>The window tracker\<close>

text \<open>
  Modelled from the spec: the class \<open>CooldownTimesPer\<close> of
  \<open>cooldowns/cooldown_times_per.py\<close>, the fixed-duration window tracker.  Its
  attributes are the limit, the time period, the back-reference to the owning
  coordinator, the calls consumed in the current window, and the start and the deadline
  of that window (absent while the window has not started).
\<close>

record CooldownTimesPer =
  tp_limit :: int
  tp_time_period :: real
  tp_cooldown :: nat
  consumed :: int
  window_start :: "real option"
  window_deadline :: "real option"

text \<open>
  Modelled from the spec: the constructor \<open>CooldownTimesPer(limit, time_period, cooldown)\<close>;
  a fresh tracker has consumed nothing and its window has not started.
\<close>

definition CooldownTimesPer_init :: "int \<Rightarrow> real \<Rightarrow> nat \<Rightarrow> CooldownTimesPer" where
  "CooldownTimesPer_init l tp owner =
     \<lparr>tp_limit = l, tp_time_period = tp, tp_cooldown = owner, consumed = 0,
      window_start = None, window_deadline = None\<rparr>"

text \<open>
  Modelled from the spec: the attribute \<open>current\<close> read by \<open>remaining_calls\<close>, the
  remaining count \<open>limit - consumed\<close>.
\<close>

definition current :: "CooldownTimesPer \<Rightarrow> int" where
  "current t = tp_limit t - consumed t"

text \<open>
  Modelled from the spec: the property \<open>has_cooldown\<close>, true iff something is consumed
  within a window that is still valid at the time of reading.
\<close>

definition has_cooldown :: "CooldownTimesPer \<Rightarrow> real \<Rightarrow> bool" where
  "has_cooldown t now =
     (0 < consumed t \<and> (case window_deadline t of None \<Rightarrow> False | Some d \<Rightarrow> now < d))"

text \<open>
  Modelled from the spec: the window of a tracker is over at a time that has reached its
  deadline; a window that has not started counts as over, so that the first acquisition
  starts one.
\<close>

definition window_elapsed :: "CooldownTimesPer \<Rightarrow> real \<Rightarrow> bool" where
  "window_elapsed t now = (case window_deadline t of None \<Rightarrow> True | Some d \<Rightarrow> d \<le> now)"

text \<open>
  Modelled from the spec: \<open>CooldownTimesPer.__aenter__\<close>, the acquisition.  When the
  window has elapsed (or has not started) the count is reset and the window restarts at
  the current time, before the check.  Below the limit the count goes up by one;
  otherwise the acquisition fails with the retry-after duration.  \<open>Cooldown.__aenter__\<close>
  has no handler around the acquisition, so the failure is raised here as
  \<open>CallableOnCooldown\<close>, the exception the wrapper's documentation names.
\<close>

definition CooldownTimesPer_aenter ::
  "CooldownTimesPer \<Rightarrow> real \<Rightarrow> (exn + unit) \<times> CooldownTimesPer" where
  "CooldownTimesPer_aenter t now =
     (let t1 = (if window_elapsed t now
                then t\<lparr>consumed := 0, window_start := Some now,
                       window_deadline := Some (now + tp_time_period t)\<rparr>
                else t)
      in if consumed t1 < tp_limit t1
         then (Inr (), t1\<lparr>consumed := consumed t1 + 1\<rparr>)
         else (Inl (CallableOnCooldown
                 ((case window_deadline t1 of None \<Rightarrow> now | Some d \<Rightarrow> d) - now)), t1))"

section \<open>The coordinator\<close>

text \<open>
  The class \<open>Cooldown\<close>.  The cache is a Python dictionary, which keeps insertion order;
  it is an association list, since \<open>clear\<close> iterates over its keys.  Its keys are the
  values that \<open>_last_bucket\<close> can hold: a key, or \<open>None\<close> when the coordinator is entered
  without having been called.  \<open>self_id\<close> is the identity of the object, which a tracker
  stores as its back-reference; \<open>func\<close> refers to the wrapped callable by name.  The
  event loop and the handle of the cleaning task are not part of the state.
\<close>

type_synonym 'v bucket_cache = "('v HashableArguments option \<times> CooldownTimesPer) list"

record 'v Cooldown =
  limit :: int
  time_period :: real
  cooldown_id :: "(int + string) option"
  func :: "string option"
  bucket :: "'v CooldownBucket"
  pending_reset :: bool
  last_bucket :: "'v HashableArguments option"
  cache :: "'v bucket_cache"
  cache_clean_eagerness :: int
  self_id :: nat

text \<open>
  \<open>Cooldown.__init__\<close>.  It validates nothing; its only failure is that of
  \<open>asyncio.create_task\<close>, which needs a running event loop.  A bucket that is
  \<open>None\<close> or otherwise falsy is replaced by \<open>CooldownBucket.all\<close>.
\<close>

definition Cooldown_init ::
  "bool \<Rightarrow> int \<Rightarrow> real \<Rightarrow> 'v CooldownBucket option \<Rightarrow> string option \<Rightarrow>
   (int + string) option \<Rightarrow> nat \<Rightarrow> exn + 'v Cooldown" where
  "Cooldown_init running_loop l tp b f cid oid =
     (if \<not> running_loop then Inl (RuntimeError ''no running event loop'')
      else Inr \<lparr>limit = l, time_period = tp, cooldown_id = cid, func = f,
                bucket = (case b of
                            None \<Rightarrow> Bucket_all
                          | Some s \<Rightarrow> if bucket_truthy s then s else Bucket_all),
                pending_reset = False, last_bucket = None, cache = [],
                cache_clean_eagerness = 250, self_id = oid\<rparr>)"

text \<open>
  \<open>Cooldown.get_bucket\<close>.  The source assigns to no attribute, so the model returns the
  key only.  \<open>process\<close> of the three members returns the pair of both, the positional
  values, or the keyword mapping (modelled from the spec), and the result is unpacked
  into the key; the result of any other bucket becomes the single positional value.
  A keyword named \<open>self\<close> cannot reach the body of a method, so the keyword mappings
  are those without it.
\<close>

definition get_bucket ::
  "'v Cooldown \<Rightarrow> 'v list \<Rightarrow> (string \<rightharpoonup> 'v) \<Rightarrow> exn + 'v HashableArguments" where
  "get_bucket c a k =
     (case bucket c of
        Bucket_all \<Rightarrow> (let data = (a, k) in Inr (HashableArguments (fst data) (snd data)))
      | Bucket_args \<Rightarrow> (let data = a in Inr (HashableArguments data Map.empty))
      | Bucket_kwargs \<Rightarrow> (let data = k in Inr (HashableArguments [] data))
      | Bucket_custom truth process \<Rightarrow>
          (case process a k of
             Inl e \<Rightarrow> Inl e
           | Inr data \<Rightarrow> Inr (HashableArguments [data] Map.empty)))"

text \<open>\<open>Cooldown.__call__\<close>: records the resolved bucket.\<close>

definition call ::
  "'v Cooldown \<Rightarrow> 'v list \<Rightarrow> (string \<rightharpoonup> 'v) \<Rightarrow> (exn + unit) \<times> 'v Cooldown" where
  "call c a k =
     (case get_bucket c a k of
        Inl e \<Rightarrow> (Inl e, c)
      | Inr b \<Rightarrow> (Inr (), c\<lparr>last_bucket := Some b\<rparr>))"

text \<open>\<open>Cooldown._get_cooldown_for_bucket\<close>.\<close>

definition get_cooldown_for_bucket ::
  "'v Cooldown \<Rightarrow> 'v HashableArguments option \<Rightarrow> bool \<Rightarrow>
   (exn + CooldownTimesPer) \<times> 'v Cooldown" where
  "get_cooldown_for_bucket c b raise_on_create =
     (case map_of (cache c) b of
        Some t \<Rightarrow> (Inr t, c)
      | None \<Rightarrow>
          if raise_on_create then (Inl NonExistent, c)
          else (let t = CooldownTimesPer_init (limit c) (time_period c) (self_id c)
                in (Inr t, c\<lparr>cache := AList.update b t (cache c)\<rparr>)))"

text \<open>
  \<open>Cooldown.__aenter__\<close>: fetches or creates the tracker of the last resolved bucket and
  acquires it.  The method assigns nothing to the cache: the acquisition changes the
  tracker object itself, and the cache shows the change because the lookup has stored
  that object.  So the new state of the tracker replaces, in place, the entry that the
  cache holds under the key, and a cache without such an entry stays as it is.
\<close>

definition aenter :: "'v Cooldown \<Rightarrow> real \<Rightarrow> (exn + unit) \<times> 'v Cooldown" where
  "aenter c now =
     (case get_cooldown_for_bucket c (last_bucket c) False of
        (Inl e, c1) \<Rightarrow> (Inl e, c1)
      | (Inr t, c1) \<Rightarrow>
          (case CooldownTimesPer_aenter t now of
             (r, t') \<Rightarrow>
               (r, c1\<lparr>cache := AList.map_entry (last_bucket c) (\<lambda>_. t') (cache c1)\<rparr>)))"

text \<open>\<open>Cooldown.__aexit__\<close> does nothing.\<close>

definition aexit :: "'v Cooldown \<Rightarrow> 'v Cooldown" where
  "aexit c = c"

text \<open>
  The body of the \<open>try\<close> statement of \<open>Cooldown.clear\<close>: the entry of the bucket is
  deleted when its tracker reports no cooldown or the eviction is forced; a missing key
  raises \<open>KeyError\<close>, which is passed over.
\<close>

definition evict ::
  "'v bucket_cache \<Rightarrow> 'v HashableArguments option \<Rightarrow> bool \<Rightarrow> real \<Rightarrow> 'v bucket_cache" where
  "evict ca b force_evict now =
     (case map_of ca b of
        None \<Rightarrow> ca
      | Some t \<Rightarrow> if \<not> has_cooldown t now \<or> force_evict then AList.delete b ca else ca)"

text \<open>A \<open>for\<close> loop whose body may raise: the first exception ends it.\<close>

fun for_buckets ::
  "('s \<Rightarrow> 'k \<Rightarrow> (exn + unit) \<times> 's) \<Rightarrow> 'k list \<Rightarrow> 's \<Rightarrow> (exn + unit) \<times> 's" where
  "for_buckets f [] c = (Inr (), c)"
| "for_buckets f (b # bs) c =
     (case f c b of
        (Inl e, c') \<Rightarrow> (Inl e, c')
      | (Inr _, c') \<Rightarrow> for_buckets f bs c')"

text \<open>
  \<open>Cooldown.clear\<close> called with a falsy bucket: the keys are copied, \<open>clear\<close> is called
  on each (\<open>self_clear\<close>), and then control falls through to the \<open>try\<close> statement with
  \<open>bucket\<close> bound to the last key of the loop, or still \<open>None\<close> when there was no key.
\<close>

definition clear_all ::
  "('v Cooldown \<Rightarrow> 'v HashableArguments option \<Rightarrow> (exn + unit) \<times> 'v Cooldown) \<Rightarrow>
   'v Cooldown \<Rightarrow> bool \<Rightarrow> real \<Rightarrow> (exn + unit) \<times> 'v Cooldown" where
  "clear_all self_clear c force_evict now =
     (let ks = map fst (cache c)
      in case for_buckets self_clear ks c of
           (Inl e, c') \<Rightarrow> (Inl e, c')
         | (Inr _, c') \<Rightarrow>
             (Inr (), c'\<lparr>cache := evict (cache c')
                                   (if ks = [] then None else last ks) force_evict now\<rparr>))"

text \<open>\<open>Cooldown.clear\<close> called with a truthy bucket: the \<open>try\<close> statement only.\<close>

definition clear_one ::
  "'v Cooldown \<Rightarrow> 'v HashableArguments \<Rightarrow> bool \<Rightarrow> real \<Rightarrow> (exn + unit) \<times> 'v Cooldown" where
  "clear_one c b force_evict now =
     (Inr (), c\<lparr>cache := evict (cache c) (Some b) force_evict now\<rparr>)"

text \<open>
  \<open>Cooldown.clear\<close>.  The method calls itself from its loop, and a key \<open>None\<close> in the
  cache makes that call take the loop again.  The first argument is the number of nested
  calls that the interpreter's recursion limit still allows below this one; with none
  left, the call in the loop raises \<open>RecursionError\<close>, which \<open>except KeyError\<close> does
  not catch.
\<close>

primrec clear ::
  "nat \<Rightarrow> 'v Cooldown \<Rightarrow> 'v HashableArguments option \<Rightarrow> bool \<Rightarrow> real \<Rightarrow>
   (exn + unit) \<times> 'v Cooldown" where
  "clear 0 c b force_evict now =
     (case b of
        Some k \<Rightarrow> clear_one c k force_evict now
      | None \<Rightarrow> clear_all (\<lambda>c' k. (Inl RecursionError, c')) c force_evict now)"
| "clear (Suc d) c b force_evict now =
     (case b of
        Some k \<Rightarrow> clear_one c k force_evict now
      | None \<Rightarrow> clear_all (\<lambda>c' k. clear d c' k force_evict now) c force_evict now)"

text \<open>
  \<open>Cooldown._keep_buckets_clear\<close>: each cycle calls \<open>clear()\<close> and sleeps.  The list
  holds the times at which the cycles run, a finite prefix of the endless loop; an
  exception of \<open>clear\<close> ends the task.
\<close>

fun keep_buckets_clear ::
  "nat \<Rightarrow> 'v Cooldown \<Rightarrow> real list \<Rightarrow> (exn + unit) \<times> 'v Cooldown" where
  "keep_buckets_clear d c [] = (Inr (), c)"
| "keep_buckets_clear d c (now # ts) =
     (case clear d c None False now of
        (Inl e, c') \<Rightarrow> (Inl e, c')
      | (Inr _, c') \<Rightarrow> keep_buckets_clear d c' ts)"

text \<open>\<open>Cooldown.remaining_calls\<close>.\<close>

definition remaining_calls ::
  "'v Cooldown \<Rightarrow> 'v list \<Rightarrow> (string \<rightharpoonup> 'v) \<Rightarrow> (exn + int) \<times> 'v Cooldown" where
  "remaining_calls c a k =
     (case get_bucket c a k of
        Inl e \<Rightarrow> (Inl e, c)
      | Inr b \<Rightarrow>
          (case get_cooldown_for_bucket c (Some b) True of
             (Inl NonExistent, c') \<Rightarrow> (Inr (limit c'), c')
           | (Inl e, c') \<Rightarrow> (Inl e, c')
           | (Inr cooldown_times_per, c') \<Rightarrow> (Inr (current cooldown_times_per), c')))"

section \<open>The decorator\<close>

text \<open>
  A callable: whether \<open>asyncio.iscoroutinefunction\<close> holds of it, its name, what a call
  of it returns or raises, and its attribute \<open>_cooldowns\<close>, the coordinators attached
  to it.
\<close>

record ('v, 'r) pycallable =
  iscoroutinefunction :: bool
  qualname :: string
  body :: "'v list \<Rightarrow> (string \<rightharpoonup> 'v) \<Rightarrow> exn + 'r"
  cooldowns :: "nat list"

text \<open>
  \<open>decorator\<close> of \<open>cooldown\<close>: refuses a callable that is not a coroutine function,
  and otherwise attaches the coordinator to the callable.
\<close>

definition decorator ::
  "'v Cooldown \<Rightarrow> ('v, 'r) pycallable \<Rightarrow> exn + ('v Cooldown \<times> ('v, 'r) pycallable)" where
  "decorator c f =
     (if \<not> iscoroutinefunction f then Inl (RuntimeError ''Expected `func` to be a coroutine'')
      else Inr (c\<lparr>func := Some (qualname f)\<rparr>, f\<lparr>cooldowns := cooldowns f @ [self_id c]\<rparr>))"

text \<open>\<open>cooldown\<close>: constructs the coordinator, then decorates.\<close>

definition cooldown ::
  "bool \<Rightarrow> int \<Rightarrow> real \<Rightarrow> 'v CooldownBucket \<Rightarrow> (int + string) option \<Rightarrow> nat \<Rightarrow>
   ('v, 'r) pycallable \<Rightarrow> exn + ('v Cooldown \<times> ('v, 'r) pycallable)" where
  "cooldown running_loop l tp b cid oid f =
     (case Cooldown_init running_loop l tp (Some b) None cid oid of
        Inl e \<Rightarrow> Inl e
      | Inr c \<Rightarrow> decorator c f)"

text \<open>
  \<open>inner\<close>, the wrapper that the decorator returns.  The check is evaluated first; when
  it is falsy the callable is invoked directly.  Otherwise the coordinator is called
  with the arguments and entered, and the callable runs inside.  Nothing suspends
  between the call of the coordinator and the acquisition, so both happen at one time.
\<close>

definition inner ::
  "'v Cooldown \<Rightarrow> ('v list \<Rightarrow> (string \<rightharpoonup> 'v) \<Rightarrow> exn + bool) \<Rightarrow> ('v, 'r) pycallable \<Rightarrow>
   real \<Rightarrow> 'v list \<Rightarrow> (string \<rightharpoonup> 'v) \<Rightarrow> (exn + 'r) \<times> 'v Cooldown" where
  "inner c check f now a k =
     (case check a k of
        Inl e \<Rightarrow> (Inl e, c)
      | Inr use_cooldown \<Rightarrow>
          if \<not> use_cooldown then (body f a k, c)
          else (case call c a k of
                  (Inl e, c1) \<Rightarrow> (Inl e, c1)
                | (Inr _, c1) \<Rightarrow>
                    (case aenter c1 now of
                       (Inl e, c2) \<Rightarrow> (Inl e, c2)
                     | (Inr _, c2) \<Rightarrow> (body f a k, aexit c2))))"

section \<open>Sequences of operations\<close>

text \<open>
  A call of the wrapper takes the cooldown path for bucket \<open>b\<close> when its check is
  truthy and its arguments resolve to \<open>b\<close>.
\<close>

definition on_bucket ::
  "'v Cooldown \<Rightarrow> ('v list \<Rightarrow> (string \<rightharpoonup> 'v) \<Rightarrow> exn + bool) \<Rightarrow> 'v HashableArguments \<Rightarrow>
   real \<times> 'v list \<times> (string \<rightharpoonup> 'v) \<Rightarrow> bool" where
  "on_bucket c check b x =
     (case x of (now, a, k) \<Rightarrow> check a k = Inr True \<and> get_bucket c a k = Inr b)"

text \<open>The times of the calls of a sequence that take the cooldown path for \<open>b\<close>.\<close>

definition bucket_times ::
  "'v Cooldown \<Rightarrow> ('v list \<Rightarrow> (string \<rightharpoonup> 'v) \<Rightarrow> exn + bool) \<Rightarrow> 'v HashableArguments \<Rightarrow>
   (real \<times> 'v list \<times> (string \<rightharpoonup> 'v)) list \<Rightarrow> real list" where
  "bucket_times c check b calls = map fst (filter (on_bucket c check b) calls)"

text \<open>
  Calls of the wrapper one after the other, each with its time and its arguments; the
  outcomes are collected in order.
\<close>

fun run_calls ::
  "'v Cooldown \<Rightarrow> ('v list \<Rightarrow> (string \<rightharpoonup> 'v) \<Rightarrow> exn + bool) \<Rightarrow> ('v, 'r) pycallable \<Rightarrow>
   (real \<times> 'v list \<times> (string \<rightharpoonup> 'v)) list \<Rightarrow> (exn + 'r) list \<times> 'v Cooldown" where
  "run_calls c check f [] = ([], c)"
| "run_calls c check f ((now, a, k) # xs) =
     (case inner c check f now a k of
        (r, c') \<Rightarrow> (case run_calls c' check f xs of (rs, c'') \<Rightarrow> (r # rs, c'')))"

text \<open>
  The position of the call with index \<open>i\<close> among the calls of the sequence that take
  the cooldown path for \<open>b\<close>: 1 for the first of them.
\<close>

definition bucket_ordinal ::
  "'v Cooldown \<Rightarrow> ('v list \<Rightarrow> (string \<rightharpoonup> 'v) \<Rightarrow> exn + bool) \<Rightarrow> 'v HashableArguments \<Rightarrow>
   (real \<times> 'v list \<times> (string \<rightharpoonup> 'v)) list \<Rightarrow> nat \<Rightarrow> nat" where
  "bucket_ordinal c check b calls i =
     length (filter (on_bucket c check b) (take (Suc i) calls))"

text \<open>
  The tracker that an acquisition for bucket \<open>b\<close> works on: the cached one, or a fresh
  one.
\<close>

definition tracker_for :: "'v Cooldown \<Rightarrow> 'v HashableArguments option \<Rightarrow> CooldownTimesPer" where
  "tracker_for c b =
     (case map_of (cache c) b of
        None \<Rightarrow> CooldownTimesPer_init (limit c) (time_period c) (self_id c)
      | Some t \<Rightarrow> t)"

text \<open>
  A call at time \<open>now\<close> opens a new window for bucket \<open>b\<close>: the bucket has no tracker,
  or its tracker, built from the parameters of the coordinator, has no window running
  at that time.
\<close>

definition window_closed :: "'v Cooldown \<Rightarrow> 'v HashableArguments \<Rightarrow> real \<Rightarrow> bool" where
  "window_closed c b now =
     (case map_of (cache c) (Some b) of
        None \<Rightarrow> True
      | Some t \<Rightarrow> window_elapsed t now \<and> tp_limit t = limit c \<and>
                  tp_time_period t = time_period c)"

text \<open>
  The window of bucket \<open>b\<close> runs until \<open>D\<close> and \<open>n\<close> calls have been made in it: the
  tracker has counted them up to the limit.
\<close>

definition window_open :: "'v Cooldown \<Rightarrow> 'v HashableArguments \<Rightarrow> nat \<Rightarrow> real \<Rightarrow> bool" where
  "window_open c b n D =
     (case map_of (cache c) (Some b) of
        None \<Rightarrow> False
      | Some t \<Rightarrow> tp_limit t = limit c \<and> tp_time_period t = time_period c \<and>
                  window_deadline t = Some D \<and>
                  consumed t = min (int n) (max (limit c) 0))"

text \<open>
  The states of a coordinator: those that its constructor returns, and those that its
  operations lead to.  The wrapper changes the state through \<open>call\<close> and \<open>aenter\<close>
  only, and the decorator sets \<open>func\<close>.
\<close>

inductive reachable :: "'v Cooldown \<Rightarrow> bool" where
  r_init: "Cooldown_init running_loop l tp b f cid oid = Inr c \<Longrightarrow> reachable c"
| r_decorator: "reachable c \<Longrightarrow> reachable (c\<lparr>func := Some name\<rparr>)"
| r_call: "reachable c \<Longrightarrow> reachable (snd (call c a k))"
| r_aenter: "reachable c \<Longrightarrow> reachable (snd (aenter c now))"
| r_aexit: "reachable c \<Longrightarrow> reachable (aexit c)"
| r_get_cooldown_for_bucket:
    "reachable c \<Longrightarrow> reachable (snd (get_cooldown_for_bucket c b raise_on_create))"
| r_clear: "reachable c \<Longrightarrow> reachable (snd (clear d c b force_evict now))"
| r_keep_buckets_clear: "reachable c \<Longrightarrow> reachable (snd (keep_buckets_clear d c ts))"
| r_remaining_calls: "reachable c \<Longrightarrow> reachable (snd (remaining_calls c a k))"

text \<open>
  What the invariant of the cache says of one state: every tracker in the cache has the
  limit and the time period of the coordinator, and refers back to it.
\<close>

definition cache_inv :: "'v Cooldown \<Rightarrow> bool" where
  "cache_inv c =
     list_all (\<lambda>(b, t). tp_limit t = limit c \<and> tp_time_period t = time_period c \<and>
                         tp_cooldown t = self_id c) (cache c)"

text \<open>
  The rule of \<open>clear\<close> for one entry: a tracker stays when it reports a cooldown and
  the eviction is not forced, and goes otherwise.
\<close>

definition evict_rule ::
  "bool \<Rightarrow> real \<Rightarrow> CooldownTimesPer option \<Rightarrow> CooldownTimesPer option" where
  "evict_rule force_evict now x =
     (case x of
        None \<Rightarrow> None
      | Some t \<Rightarrow> if has_cooldown t now \<and> \<not> force_evict then Some t else None)"

section \<open>Sample values\<close>

text \<open>
  A coordinator as \<open>Cooldown(2, 10, CooldownBucket.args)\<close> constructs it, a coroutine
  function, the check of the tests (\<open>args[0] == 1\<close>), and two keys.
\<close>

definition demo_cooldown :: "int Cooldown" where
  "demo_cooldown =
     \<lparr>limit = 2, time_period = 10, cooldown_id = None, func = None, bucket = Bucket_args,
      pending_reset = False, last_bucket = None, cache = [], cache_clean_eagerness = 250,
      self_id = 7\<rparr>"

definition demo_func :: "(int, int) pycallable" where
  "demo_func =
     \<lparr>iscoroutinefunction = True, qualname = ''test_func'',
      body = (\<lambda>a k. Inr (sum_list a)), cooldowns = []\<rparr>"

definition demo_check :: "int list \<Rightarrow> (string \<rightharpoonup> int) \<Rightarrow> exn + bool" where
  "demo_check a k = (case a of [] \<Rightarrow> Inl (Raised ''IndexError'') | x # _ \<Rightarrow> Inr (x = 1))"

definition key_one :: "int HashableArguments" where
  "key_one = HashableArguments [1] Map.empty"

definition key_two :: "int HashableArguments" where
  "key_two = HashableArguments [2] Map.empty"

text \<open>The coordinator after one call of the wrapper with the argument 1 at time 0.\<close>

definition demo_called :: "int Cooldown" where
  "demo_called = snd (inner demo_cooldown demo_check demo_func 0 [1] Map.empty)"

text \<open>
  The coordinator entered at time 0 without having been called, as in
  \<open>async with cooldown\<close>: the last bucket is still \<open>None\<close>.
\<close>

definition demo_entered :: "int Cooldown" where
  "demo_entered = snd (aenter demo_cooldown 0)"

text \<open>
  Five calls at the times 0 to 4, three of them with the argument 1, and a check that
  always applies the cooldown.
\<close>

definition demo_calls :: "(real \<times> int list \<times> (string \<rightharpoonup> int)) list" where
  "demo_calls =
     [(0, [1], Map.empty), (1, [2], Map.empty), (2, [1], Map.empty), (3, [2], Map.empty),
      (4, [1], Map.empty)]"

definition always :: "int list \<Rightarrow> (string \<rightharpoonup> int) \<Rightarrow> exn + bool" where
  "always a k = Inr True"

text \<open>A callable that is not a coroutine function.\<close>

definition demo_sync_func :: "(int, int) pycallable" where
  "demo_sync_func =
     \<lparr>iscoroutinefunction = False, qualname = ''test_func'',
      body = (\<lambda>a k. Inr (sum_list a)), cooldowns = []\<rparr>"

section \<open>The sample values, evaluated\<close>

lemmas eval_defs =
  inner_def call_def get_bucket_def aenter_def aexit_def get_cooldown_for_bucket_def
  CooldownTimesPer_init_def CooldownTimesPer_aenter_def window_elapsed_def
  demo_check_def demo_cooldown_def demo_func_def key_one_def key_two_def Let_def

lemma demo_called_eq:
  "demo_called =
     demo_cooldown\<lparr>last_bucket := Some key_one,
       cache := [(Some key_one,
                  \<lparr>tp_limit = 2, tp_time_period = 10, tp_cooldown = 7, consumed = 1,
                   window_start = Some 0, window_deadline = Some 10\<rparr>)]\<rparr>"
  by (simp add: demo_called_def eval_defs)

lemma demo_entered_eq:
  "demo_entered =
     demo_cooldown\<lparr>cache := [(None,
                  \<lparr>tp_limit = 2, tp_time_period = 10, tp_cooldown = 7, consumed = 1,
                   window_start = Some 0, window_deadline = Some 10\<rparr>)]\<rparr>"
  by (simp add: demo_entered_def eval_defs)

lemma key_one_neq_two: "key_one \<noteq> key_two" "key_two \<noteq> key_one"
  by (simp_all add: key_one_def key_two_def)

section \<open>Lookup and eviction of single entries\<close>

lemma update_absent: "map_of al k = None \<Longrightarrow> AList.update k v al = al @ [(k, v)]"
  by (induction al) (auto split: if_splits)

lemma map_of_evict:
  "map_of (evict ca b force_evict now) =
     (case map_of ca b of
        None \<Rightarrow> map_of ca
      | Some t \<Rightarrow> if \<not> has_cooldown t now \<or> force_evict
                  then (map_of ca)(b := None) else map_of ca)"
  by (simp add: evict_def delete_conv' split: option.splits)

text \<open>
  C10: for a bucket key that the cache does not hold, \<open>clear(key)\<close>, forced or not,
  raises nothing and leaves the coordinator, and with it the cache, as it was.
\<close>

theorem clear_absent_key_noop:
  "map_of (cache c) (Some k) = None \<Longrightarrow> clear d c (Some k) force_evict now = (Inr (), c)"
  by (cases d) (simp_all add: clear_one_def evict_def)

theorem clear_absent_key_noop_witness:
  "map_of (cache demo_called) (Some key_two) = None
   \<and> clear 0 demo_called (Some key_two) True 5 = (Inr (), demo_called)"
  using clear_absent_key_noop [of demo_called key_two 0 True 5]
  by (simp add: demo_called_eq key_one_neq_two)

text \<open>
  C8: the lookup with \<open>raise_on_create=True\<close> raises \<open>NonExistent\<close> exactly when the
  key has no entry, returns the tracker otherwise, and leaves the coordinator as it was.
  With \<open>raise_on_create=False\<close> the lookup never fails: it returns the existing tracker,
  or appends a fresh one, which has consumed nothing, and returns that.  The signal does
  not leave the coordinator: \<open>remaining_calls\<close> raises only what resolving the bucket
  raises, and entering the coordinator never raises \<open>NonExistent\<close>.
\<close>

theorem get_cooldown_for_bucket_spec:
  "get_cooldown_for_bucket c b True =
     (case map_of (cache c) b of None \<Rightarrow> (Inl NonExistent, c) | Some t \<Rightarrow> (Inr t, c))
   \<and> get_cooldown_for_bucket c b False =
     (case map_of (cache c) b of
        None \<Rightarrow> (Inr (CooldownTimesPer_init (limit c) (time_period c) (self_id c)),
                 c\<lparr>cache := cache c @
                    [(b, CooldownTimesPer_init (limit c) (time_period c) (self_id c))]\<rparr>)
      | Some t \<Rightarrow> (Inr t, c))
   \<and> consumed (CooldownTimesPer_init (limit c) (time_period c) (self_id c)) = 0
   \<and> (case get_bucket c a k of
        Inl e \<Rightarrow> remaining_calls c a k = (Inl e, c)
      | Inr key \<Rightarrow> \<exists>n. remaining_calls c a k = (Inr n, c))
   \<and> (case fst (aenter c now) of Inl e \<Rightarrow> e \<noteq> NonExistent | Inr u \<Rightarrow> True)"
proof (intro conjI)
  show "get_cooldown_for_bucket c b True =
     (case map_of (cache c) b of None \<Rightarrow> (Inl NonExistent, c) | Some t \<Rightarrow> (Inr t, c))"
    by (simp add: get_cooldown_for_bucket_def split: option.splits)
  show "get_cooldown_for_bucket c b False =
     (case map_of (cache c) b of
        None \<Rightarrow> (Inr (CooldownTimesPer_init (limit c) (time_period c) (self_id c)),
                 c\<lparr>cache := cache c @
                    [(b, CooldownTimesPer_init (limit c) (time_period c) (self_id c))]\<rparr>)
      | Some t \<Rightarrow> (Inr t, c))"
    by (simp add: get_cooldown_for_bucket_def update_absent Let_def split: option.splits)
  show "consumed (CooldownTimesPer_init (limit c) (time_period c) (self_id c)) = 0"
    by (simp add: CooldownTimesPer_init_def)
  show "case get_bucket c a k of
        Inl e \<Rightarrow> remaining_calls c a k = (Inl e, c)
      | Inr key \<Rightarrow> \<exists>n. remaining_calls c a k = (Inr n, c)"
    by (simp add: remaining_calls_def get_cooldown_for_bucket_def
             split: sum.splits option.splits)
  show "case fst (aenter c now) of Inl e \<Rightarrow> e \<noteq> NonExistent | Inr u \<Rightarrow> True"
    by (auto simp add: aenter_def get_cooldown_for_bucket_def CooldownTimesPer_aenter_def
                       Let_def
             split: sum.splits option.splits prod.splits if_splits)
qed

theorem get_cooldown_for_bucket_spec_witness:
  "get_cooldown_for_bucket demo_called (Some key_two) True = (Inl NonExistent, demo_called)
   \<and> fst (get_cooldown_for_bucket demo_called (Some key_one) False) =
       Inr \<lparr>tp_limit = 2, tp_time_period = 10, tp_cooldown = 7, consumed = 1,
            window_start = Some 0, window_deadline = Some 10\<rparr>
   \<and> cache (snd (get_cooldown_for_bucket demo_called (Some key_two) False)) =
       cache demo_called @ [(Some key_two, CooldownTimesPer_init 2 10 7)]
   \<and> remaining_calls demo_called [2] Map.empty = (Inr 2, demo_called)"
  using get_cooldown_for_bucket_spec [of demo_called "Some key_two" "[2]" Map.empty 0]
        get_cooldown_for_bucket_spec [of demo_called "Some key_one" "[2]" Map.empty 0]
  by (simp add: demo_called_eq key_one_neq_two demo_cooldown_def remaining_calls_def
                get_bucket_def get_cooldown_for_bucket_def key_one_def key_two_def)

section \<open>Remaining calls\<close>

text \<open>
  C2: when the arguments resolve to a bucket, \<open>remaining_calls\<close> returns the limit of
  the coordinator if the cache has no tracker for the bucket, and the tracker's limit
  less its consumed count otherwise; in both cases the coordinator, and so every entry
  of the cache, is returned as it was.
\<close>

theorem remaining_calls_spec:
  "get_bucket c a k = Inr b \<Longrightarrow>
   remaining_calls c a k =
     (Inr (case map_of (cache c) (Some b) of
             None \<Rightarrow> limit c
           | Some t \<Rightarrow> tp_limit t - consumed t), c)"
  by (simp add: remaining_calls_def get_cooldown_for_bucket_def current_def
           split: option.splits)

theorem remaining_calls_spec_witness:
  "get_bucket demo_called [1] Map.empty = Inr key_one
   \<and> remaining_calls demo_called [1] Map.empty = (Inr 1, demo_called)
   \<and> get_bucket demo_called [2] Map.empty = Inr key_two
   \<and> remaining_calls demo_called [2] Map.empty = (Inr 2, demo_called)"
  using remaining_calls_spec [of demo_called "[1]" Map.empty key_one]
        remaining_calls_spec [of demo_called "[2]" Map.empty key_two]
  by (simp add: demo_called_eq demo_cooldown_def get_bucket_def key_one_def key_two_def)

section \<open>The bypass\<close>

text \<open>
  C7: when the check evaluates to a falsy value, the wrapper returns what the wrapped
  callable returns, and the coordinator is untouched: no bucket is recorded, no tracker
  is created or acquired, nothing is consumed.
\<close>

theorem check_false_bypass:
  "check a k = Inr False \<Longrightarrow> inner c check f now a k = (body f a k, c)"
  by (simp add: inner_def)

theorem check_false_bypass_witness:
  "demo_check [2] Map.empty = Inr False
   \<and> inner demo_called demo_check demo_func 1 [2] Map.empty = (Inr 2, demo_called)"
  using check_false_bypass [of demo_check "[2]" Map.empty demo_called demo_func 1]
  by (simp add: demo_check_def demo_func_def)

section \<open>One call of the wrapper\<close>

lemma get_bucket_cong: "bucket c' = bucket c \<Longrightarrow> get_bucket c' a k = get_bucket c a k"
  by (simp add: get_bucket_def)

lemma on_bucket_cong:
  "bucket c' = bucket c \<Longrightarrow> on_bucket c' check b = on_bucket c check b"
  by (rule ext) (simp add: on_bucket_def get_bucket_def split: prod.splits)

lemma map_entry_update:
  "AList.map_entry k (\<lambda>_. w) (AList.update k v al) = AList.update k w al"
  by (induction al) auto

text \<open>
  The lookup that may create stores: afterwards the cache holds, under the key, the
  very tracker that the lookup returns.
\<close>

lemma get_cooldown_for_bucket_stores:
  "fst (get_cooldown_for_bucket c b False) = Inr (tracker_for c b) \<and>
   snd (get_cooldown_for_bucket c b False) =
     c\<lparr>cache := AList.update b (tracker_for c b) (cache c)\<rparr> \<and>
   map_of (cache (snd (get_cooldown_for_bucket c b False))) b = Some (tracker_for c b)"
proof (cases "map_of (cache c) b")
  case None
  then show ?thesis
    by (simp add: get_cooldown_for_bucket_def tracker_for_def Let_def update_conv')
next
  case (Some t)
  then show ?thesis
    by (simp add: get_cooldown_for_bucket_def tracker_for_def update_triv)
qed

text \<open>
  Entering the coordinator therefore leaves the acquired tracker in the cache: the
  change made in place lands on the entry that the lookup has stored.
\<close>

lemma aenter_eq:
  "aenter c now =
     (case CooldownTimesPer_aenter (tracker_for c (last_bucket c)) now of
        (r, t') \<Rightarrow> (r, c\<lparr>cache := AList.update (last_bucket c) t' (cache c)\<rparr>))"
proof -
  obtain r c1 where look: "get_cooldown_for_bucket c (last_bucket c) False = (r, c1)"
    by (cases "get_cooldown_for_bucket c (last_bucket c) False")
  from get_cooldown_for_bucket_stores [of c "last_bucket c"] look
  have r: "r = Inr (tracker_for c (last_bucket c))"
    and c1: "c1 = c\<lparr>cache := AList.update (last_bucket c)
                               (tracker_for c (last_bucket c)) (cache c)\<rparr>"
    by simp_all
  show ?thesis
    by (simp add: aenter_def look r c1 map_entry_update split: prod.splits)
qed

lemma tracker_for_last_bucket [simp]:
  "tracker_for (c\<lparr>last_bucket := x\<rparr>) b = tracker_for c b"
  by (simp add: tracker_for_def split: option.splits)

lemma inner_cooldown_path:
  assumes "check a k = Inr True" and "get_bucket c a k = Inr b"
  shows "inner c check f now a k =
     (case CooldownTimesPer_aenter (tracker_for c (Some b)) now of
        (r, t') \<Rightarrow>
          ((case r of Inl e \<Rightarrow> Inl e | Inr u \<Rightarrow> body f a k),
           c\<lparr>last_bucket := Some b, cache := AList.update (Some b) t' (cache c)\<rparr>))"
proof -
  obtain r t' where ta: "CooldownTimesPer_aenter (tracker_for c (Some b)) now = (r, t')"
    by (cases "CooldownTimesPer_aenter (tracker_for c (Some b)) now")
  have "aenter (c\<lparr>last_bucket := Some b\<rparr>) now =
          (r, c\<lparr>last_bucket := Some b, cache := AList.update (Some b) t' (cache c)\<rparr>)"
    by (simp add: aenter_eq ta)
  with assms ta show ?thesis
    by (cases r) (simp_all add: inner_def call_def aexit_def)
qed

lemma inner_other_path:
  assumes "\<not> (check a k = Inr True \<and> (\<exists>b. get_bucket c a k = Inr b))"
  shows "snd (inner c check f now a k) = c"
proof (cases "check a k")
  case (Inl e)
  then show ?thesis by (simp add: inner_def)
next
  case (Inr u)
  show ?thesis
  proof (cases u)
    case False
    with Inr show ?thesis by (simp add: inner_def)
  next
    case True
    with Inr assms obtain e where "get_bucket c a k = Inl e"
      by (cases "get_bucket c a k") auto
    with Inr True show ?thesis by (simp add: inner_def call_def)
  qed
qed

lemma inner_cooldown_state:
  assumes "check a k = Inr True" and "get_bucket c a k = Inr b"
  shows "snd (inner c check f now a k) =
           c\<lparr>last_bucket := Some b,
             cache := AList.update (Some b)
                        (snd (CooldownTimesPer_aenter (tracker_for c (Some b)) now)) (cache c)\<rparr>"
    and "fst (inner c check f now a k) =
           (case fst (CooldownTimesPer_aenter (tracker_for c (Some b)) now) of
              Inl e \<Rightarrow> Inl e | Inr u \<Rightarrow> body f a k)"
proof -
  obtain r t' where ta: "CooldownTimesPer_aenter (tracker_for c (Some b)) now = (r, t')"
    by (cases "CooldownTimesPer_aenter (tracker_for c (Some b)) now")
  have eq: "inner c check f now a k =
          ((case r of Inl e \<Rightarrow> Inl e | Inr u \<Rightarrow> body f a k),
           c\<lparr>last_bucket := Some b, cache := AList.update (Some b) t' (cache c)\<rparr>)"
    using inner_cooldown_path [of check a k c b f now] assms by (simp add: ta)
  show "snd (inner c check f now a k) =
           c\<lparr>last_bucket := Some b,
             cache := AList.update (Some b)
                        (snd (CooldownTimesPer_aenter (tracker_for c (Some b)) now)) (cache c)\<rparr>"
    by (simp only: eq ta snd_conv)
  show "fst (inner c check f now a k) =
           (case fst (CooldownTimesPer_aenter (tracker_for c (Some b)) now) of
              Inl e \<Rightarrow> Inl e | Inr u \<Rightarrow> body f a k)"
    by (simp only: eq ta fst_conv)
qed

lemma inner_params:
  "limit (snd (inner c check f now a k)) = limit c \<and>
   time_period (snd (inner c check f now a k)) = time_period c \<and>
   bucket (snd (inner c check f now a k)) = bucket c \<and>
   self_id (snd (inner c check f now a k)) = self_id c"
proof (cases "check a k = Inr True \<and> (\<exists>b. get_bucket c a k = Inr b)")
  case True
  then obtain b where "check a k = Inr True" "get_bucket c a k = Inr b" by blast
  then show ?thesis
    using inner_cooldown_state(1) [of check a k c b f now] by simp
next
  case False
  then show ?thesis using inner_other_path [of check a k c f now] by simp
qed

lemma inner_off_bucket:
  assumes "\<not> on_bucket c check b (now, a, k)"
  shows "map_of (cache (snd (inner c check f now a k))) (Some b) = map_of (cache c) (Some b)"
proof (cases "check a k = Inr True \<and> (\<exists>b'. get_bucket c a k = Inr b')")
  case True
  then obtain b' where ck: "check a k = Inr True" and gb: "get_bucket c a k = Inr b'"
    by blast
  with assms have "b' \<noteq> b" by (auto simp: on_bucket_def)
  then show ?thesis
    using inner_cooldown_state(1) [of check a k c b' f now] ck gb by (simp add: update_conv')
next
  case False
  then show ?thesis using inner_other_path [of check a k c f now] by simp
qed

lemma inner_on_bucket:
  assumes "on_bucket c check b (now, a, k)"
  shows "map_of (cache (snd (inner c check f now a k))) (Some b) =
           Some (snd (CooldownTimesPer_aenter (tracker_for c (Some b)) now))"
    and "fst (inner c check f now a k) =
           (case fst (CooldownTimesPer_aenter (tracker_for c (Some b)) now) of
              Inl e \<Rightarrow> Inl e | Inr u \<Rightarrow> body f a k)"
proof -
  from assms have ck: "check a k = Inr True" and gb: "get_bucket c a k = Inr b"
    by (simp_all add: on_bucket_def)
  show "map_of (cache (snd (inner c check f now a k))) (Some b) =
           Some (snd (CooldownTimesPer_aenter (tracker_for c (Some b)) now))"
    using inner_cooldown_state(1) [of check a k c b f now] ck gb by (simp add: update_conv')
  show "fst (inner c check f now a k) =
           (case fst (CooldownTimesPer_aenter (tracker_for c (Some b)) now) of
              Inl e \<Rightarrow> Inl e | Inr u \<Rightarrow> body f a k)"
    using inner_cooldown_state(2) [of check a k c b f now] ck gb by simp
qed

lemma tracker_aenter_elapsed:
  "window_elapsed t now \<Longrightarrow>
   CooldownTimesPer_aenter t now =
     (if 0 < tp_limit t
      then (Inr (), t\<lparr>consumed := 1, window_start := Some now,
                       window_deadline := Some (now + tp_time_period t)\<rparr>)
      else (Inl (CallableOnCooldown (tp_time_period t)),
            t\<lparr>consumed := 0, window_start := Some now,
              window_deadline := Some (now + tp_time_period t)\<rparr>))"
  by (simp add: CooldownTimesPer_aenter_def Let_def)

lemma tracker_aenter_open:
  "window_deadline t = Some D \<Longrightarrow> now < D \<Longrightarrow>
   CooldownTimesPer_aenter t now =
     (if consumed t < tp_limit t then (Inr (), t\<lparr>consumed := consumed t + 1\<rparr>)
      else (Inl (CallableOnCooldown (D - now)), t))"
  by (simp add: CooldownTimesPer_aenter_def window_elapsed_def Let_def)

section \<open>Calls within one window\<close>

lemma window_closed_tracker:
  assumes "window_closed c b now"
  shows "window_elapsed (tracker_for c (Some b)) now"
    and "tp_limit (tracker_for c (Some b)) = limit c"
    and "tp_time_period (tracker_for c (Some b)) = time_period c"
  using assms
  by (simp_all add: window_closed_def tracker_for_def CooldownTimesPer_init_def
        window_elapsed_def split: option.splits)

lemma window_open_params:
  assumes "limit c' = limit c" and "time_period c' = time_period c"
    and "map_of (cache c') (Some b) = map_of (cache c) (Some b)"
  shows "window_open c' b n D = window_open c b n D"
  using assms by (simp add: window_open_def split: option.splits)

lemma window_closed_params:
  assumes "limit c' = limit c" and "time_period c' = time_period c"
    and "map_of (cache c') (Some b) = map_of (cache c) (Some b)"
  shows "window_closed c' b now = window_closed c b now"
  using assms by (simp add: window_closed_def split: option.splits)

lemma first_call_in_window:
  assumes on: "on_bucket c check b (now, a, k)"
    and closed: "window_closed c b now"
  shows "fst (inner c check f now a k) =
           (if 1 \<le> limit c then body f a k
            else Inl (CallableOnCooldown (now + time_period c - now)))"
    and "window_open (snd (inner c check f now a k)) b 1 (now + time_period c)"
proof -
  let ?t = "tracker_for c (Some b)"
  note tr = window_closed_tracker [OF closed]
  have ae: "CooldownTimesPer_aenter ?t now =
     (if 0 < limit c
      then (Inr (), ?t\<lparr>consumed := 1, window_start := Some now,
                       window_deadline := Some (now + time_period c)\<rparr>)
      else (Inl (CallableOnCooldown (time_period c)),
            ?t\<lparr>consumed := 0, window_start := Some now,
              window_deadline := Some (now + time_period c)\<rparr>))"
    using tracker_aenter_elapsed [OF tr(1)] by (simp add: tr)
  show "fst (inner c check f now a k) =
           (if 1 \<le> limit c then body f a k
            else Inl (CallableOnCooldown (now + time_period c - now)))"
    using inner_on_bucket(2) [OF on, of f] by (simp add: ae)
  have "map_of (cache (snd (inner c check f now a k))) (Some b) =
          Some (snd (CooldownTimesPer_aenter ?t now))"
    by (rule inner_on_bucket(1) [OF on])
  then show "window_open (snd (inner c check f now a k)) b 1 (now + time_period c)"
    using inner_params [of c check f now a k]
    by (simp add: window_open_def ae tr)
qed

lemma later_call_in_window:
  assumes on: "on_bucket c check b (now, a, k)"
    and opn: "window_open c b n D" and "now < D"
  shows "fst (inner c check f now a k) =
           (if int (Suc n) \<le> limit c then body f a k
            else Inl (CallableOnCooldown (D - now)))"
    and "window_open (snd (inner c check f now a k)) b (Suc n) D"
proof -
  from opn obtain t where t: "map_of (cache c) (Some b) = Some t"
    and tl: "tp_limit t = limit c" and tt: "tp_time_period t = time_period c"
    and td: "window_deadline t = Some D"
    and tc: "consumed t = min (int n) (max (limit c) 0)"
    by (auto simp: window_open_def split: option.splits)
  have tf: "tracker_for c (Some b) = t"
    by (simp add: tracker_for_def t)
  have ae: "CooldownTimesPer_aenter t now =
     (if consumed t < tp_limit t then (Inr (), t\<lparr>consumed := consumed t + 1\<rparr>)
      else (Inl (CallableOnCooldown (D - now)), t))"
    by (rule tracker_aenter_open [OF td \<open>now < D\<close>])
  have lt: "consumed t < tp_limit t \<longleftrightarrow> int (Suc n) \<le> limit c"
    using tc tl by auto
  show "fst (inner c check f now a k) =
           (if int (Suc n) \<le> limit c then body f a k
            else Inl (CallableOnCooldown (D - now)))"
    using inner_on_bucket(2) [OF on, of f] by (simp add: tf ae lt)
  have "map_of (cache (snd (inner c check f now a k))) (Some b) =
          Some (snd (CooldownTimesPer_aenter t now))"
    using inner_on_bucket(1) [OF on, of f] by (simp add: tf)
  then show "window_open (snd (inner c check f now a k)) b (Suc n) D"
    using inner_params [of c check f now a k] tc tl tt td
    by (auto simp add: window_open_def ae lt)
qed

lemma bucket_times_Cons:
  "bucket_times c check b (x # xs) =
     (if on_bucket c check b x then fst x # bucket_times c check b xs
      else bucket_times c check b xs)"
  by (simp add: bucket_times_def)

lemma bucket_ordinal_Cons:
  "bucket_ordinal c check b (x # xs) (Suc i) =
     (if on_bucket c check b x then Suc (bucket_ordinal c check b xs i)
      else bucket_ordinal c check b xs i)"
  by (simp add: bucket_ordinal_def)

lemma bucket_ordinal_0:
  "bucket_ordinal c check b (x # xs) 0 = (if on_bucket c check b x then 1 else 0)"
  by (simp add: bucket_ordinal_def)

lemma run_calls_Cons:
  "fst (run_calls c check f ((now, a, k) # xs)) =
     fst (inner c check f now a k) # fst (run_calls (snd (inner c check f now a k)) check f xs)"
  by (simp split: prod.splits)

lemma run_calls_in_window:
  fixes c0 :: "'v Cooldown" and f :: "('v, 'r) pycallable"
  assumes "bucket c = bucket c0" and "limit c = limit c0"
    and "time_period c = time_period c0"
    and "if n = 0
         then bucket_times c0 check b calls \<noteq> [] \<longrightarrow>
              window_closed c b (hd (bucket_times c0 check b calls)) \<and>
              D = hd (bucket_times c0 check b calls) + time_period c0 \<and>
              (\<forall>t \<in> set (tl (bucket_times c0 check b calls)). t < D)
         else window_open c b n D \<and> (\<forall>t \<in> set (bucket_times c0 check b calls). t < D)"
    and "i < length calls" and "on_bucket c0 check b (calls ! i)"
  shows "fst (run_calls c check f calls) ! i =
           (if int (n + bucket_ordinal c0 check b calls i) \<le> limit c0
            then body f (fst (snd (calls ! i))) (snd (snd (calls ! i)))
            else Inl (CallableOnCooldown (D - fst (calls ! i))))"
  using assms
proof (induction calls arbitrary: c n i)
  case Nil
  then show ?case by simp
next
  case (Cons x xs)
  obtain now a k where x: "x = (now, a, k)" by (cases x)
  let ?c' = "snd (inner c check f now a k)"
  have par: "bucket ?c' = bucket c0" "limit ?c' = limit c0" "time_period ?c' = time_period c0"
    using inner_params [of c check f now a k] Cons.prems(1-3) by simp_all
  have ob: "on_bucket c check b = on_bucket c0 check b"
    by (rule on_bucket_cong [OF Cons.prems(1)])
  show ?case
  proof (cases "on_bucket c0 check b x")
    case False
    with Cons.prems(6) obtain j where i: "i = Suc j" by (cases i) auto
    from False have "\<not> on_bucket c check b (now, a, k)" by (simp add: ob x)
    then have same: "map_of (cache ?c') (Some b) = map_of (cache c) (Some b)"
      by (rule inner_off_bucket)
    have wo: "window_open ?c' b n D = window_open c b n D"
      by (rule window_open_params) (simp_all add: par Cons.prems same)
    have wc: "\<And>t. window_closed ?c' b t = window_closed c b t"
      by (rule window_closed_params) (simp_all add: par Cons.prems same)
    have "fst (run_calls ?c' check f xs) ! j =
           (if int (n + bucket_ordinal c0 check b xs j) \<le> limit c0
            then body f (fst (snd (xs ! j))) (snd (snd (xs ! j)))
            else Inl (CallableOnCooldown (D - fst (xs ! j))))"
    proof (rule Cons.IH [OF par])
      show "if n = 0
         then bucket_times c0 check b xs \<noteq> [] \<longrightarrow>
              window_closed ?c' b (hd (bucket_times c0 check b xs)) \<and>
              D = hd (bucket_times c0 check b xs) + time_period c0 \<and>
              (\<forall>t \<in> set (tl (bucket_times c0 check b xs)). t < D)
         else window_open ?c' b n D \<and> (\<forall>t \<in> set (bucket_times c0 check b xs). t < D)"
        using Cons.prems(4) False by (cases "n = 0") (auto simp add: bucket_times_Cons wo wc)
      show "j < length xs" using Cons.prems(5) i by simp
      show "on_bucket c0 check b (xs ! j)" using Cons.prems(6) i by simp
    qed
    with False show ?thesis
      by (simp add: x i run_calls_Cons bucket_ordinal_Cons del: run_calls.simps)
  next
    case True
    then have on: "on_bucket c check b (now, a, k)" by (simp add: ob x)
    have bt: "bucket_times c0 check b (x # xs) = now # bucket_times c0 check b xs"
      using True by (simp add: bucket_times_Cons x)
    have step: "fst (inner c check f now a k) =
             (if int (Suc n) \<le> limit c0 then body f a k
              else Inl (CallableOnCooldown (D - now)))
           \<and> window_open ?c' b (Suc n) D"
    proof (cases "n = 0")
      case True
      with Cons.prems(4) bt have closed: "window_closed c b now"
        and D: "D = now + time_period c0" by simp_all
      from first_call_in_window [OF on closed, of f] True D Cons.prems(2,3)
      show ?thesis by simp
    next
      case False
      with Cons.prems(4) bt have opn: "window_open c b n D" and "now < D" by simp_all
      from later_call_in_window [OF on opn \<open>now < D\<close>, of f] Cons.prems(2)
      show ?thesis by simp
    qed
    have rest: "\<forall>t \<in> set (bucket_times c0 check b xs). t < D"
      using Cons.prems(4) bt by (cases "n = 0") auto
    show ?thesis
    proof (cases i)
      case 0
      with step True show ?thesis
        by (simp add: x run_calls_Cons bucket_ordinal_0 del: run_calls.simps)
    next
      case (Suc j)
      have "fst (run_calls ?c' check f xs) ! j =
           (if int (Suc n + bucket_ordinal c0 check b xs j) \<le> limit c0
            then body f (fst (snd (xs ! j))) (snd (snd (xs ! j)))
            else Inl (CallableOnCooldown (D - fst (xs ! j))))"
      proof (rule Cons.IH [OF par])
        show "if Suc n = 0
         then bucket_times c0 check b xs \<noteq> [] \<longrightarrow>
              window_closed ?c' b (hd (bucket_times c0 check b xs)) \<and>
              D = hd (bucket_times c0 check b xs) + time_period c0 \<and>
              (\<forall>t \<in> set (tl (bucket_times c0 check b xs)). t < D)
         else window_open ?c' b (Suc n) D \<and>
              (\<forall>t \<in> set (bucket_times c0 check b xs). t < D)"
          using step rest by simp
        show "j < length xs" using Cons.prems(5) Suc by simp
        show "on_bucket c0 check b (xs ! j)" using Cons.prems(6) Suc by simp
      qed
      with True show ?thesis
        by (simp add: x Suc run_calls_Cons bucket_ordinal_Cons del: run_calls.simps)
    qed
  qed
qed

lemma demo_on_bucket:
  "on_bucket demo_cooldown always key_one (now, a, k) = (a = [1])"
  by (auto simp add: on_bucket_def always_def get_bucket_def demo_cooldown_def key_one_def)

text \<open>
  C1: take any sequence of calls of the wrapper, in any order and on any buckets, and a
  bucket \<open>b\<close> for which the first call on the cooldown path opens a new window.  If all
  later calls on the cooldown path for \<open>b\<close> come before that window ends, then such a
  call returns what the wrapped callable returns when it is among the first \<open>limit\<close>
  of them, and raises \<open>CallableOnCooldown\<close>, with the time left in the window,
  otherwise: the first \<open>limit\<close> calls succeed and the next one fails.
\<close>

theorem limit_exact_in_window:
  assumes "window_closed c b (hd (bucket_times c check b calls))"
    and "\<forall>t \<in> set (tl (bucket_times c check b calls)).
           t < hd (bucket_times c check b calls) + time_period c"
    and "i < length calls" and "on_bucket c check b (calls ! i)"
  shows "fst (run_calls c check f calls) ! i =
           (if int (bucket_ordinal c check b calls i) \<le> limit c
            then body f (fst (snd (calls ! i))) (snd (snd (calls ! i)))
            else Inl (CallableOnCooldown
                   (hd (bucket_times c check b calls) + time_period c - fst (calls ! i))))"
proof -
  have "fst (run_calls c check f calls) ! i =
           (if int (0 + bucket_ordinal c check b calls i) \<le> limit c
            then body f (fst (snd (calls ! i))) (snd (snd (calls ! i)))
            else Inl (CallableOnCooldown
                   (hd (bucket_times c check b calls) + time_period c - fst (calls ! i))))"
    by (rule run_calls_in_window [where n = 0]) (simp_all add: assms)
  then show ?thesis by simp
qed

theorem limit_exact_in_window_witness:
  "fst (run_calls demo_cooldown always demo_func demo_calls) ! 2 = Inr 1
   \<and> fst (run_calls demo_cooldown always demo_func demo_calls) ! 4 =
       Inl (CallableOnCooldown 6)"
proof -
  have bt: "bucket_times demo_cooldown always key_one demo_calls = [0, 2, 4]"
    by (simp add: bucket_times_def demo_calls_def demo_on_bucket)
  have closed: "window_closed demo_cooldown key_one
                  (hd (bucket_times demo_cooldown always key_one demo_calls))"
    by (simp add: window_closed_def demo_cooldown_def)
  have win: "\<forall>t \<in> set (tl (bucket_times demo_cooldown always key_one demo_calls)).
               t < hd (bucket_times demo_cooldown always key_one demo_calls) +
                   time_period demo_cooldown"
    by (simp add: bt) (simp add: demo_cooldown_def)
  have len: "2 < length demo_calls" "4 < length demo_calls"
    by (simp_all add: demo_calls_def)
  have on: "on_bucket demo_cooldown always key_one (demo_calls ! 2)"
    "on_bucket demo_cooldown always key_one (demo_calls ! 4)"
    by (simp_all add: demo_calls_def demo_on_bucket)
  have ord: "bucket_ordinal demo_cooldown always key_one demo_calls 2 = 2"
    "bucket_ordinal demo_cooldown always key_one demo_calls 4 = 3"
    by (simp_all add: bucket_ordinal_def demo_calls_def demo_on_bucket)
  have val: "limit demo_cooldown = 2" "time_period demo_cooldown = 10"
    "demo_calls ! 2 = (2, [1], Map.empty)" "demo_calls ! 4 = (4, [1], Map.empty)"
    "body demo_func [1] Map.empty = Inr 1"
    by (simp_all add: demo_cooldown_def demo_calls_def demo_func_def)
  from limit_exact_in_window [OF closed win len(1) on(1), of demo_func]
  have "fst (run_calls demo_cooldown always demo_func demo_calls) ! 2 = Inr 1"
    by (simp only: ord bt val) (simp add: val)
  moreover
  from limit_exact_in_window [OF closed win len(2) on(2), of demo_func]
  have "fst (run_calls demo_cooldown always demo_func demo_calls) ! 4 =
          Inl (CallableOnCooldown 6)"
    by (simp only: ord bt val) (simp add: val)
  ultimately show ?thesis by simp
qed

section \<open>What clear preserves\<close>

lemma for_buckets_preserves:
  assumes step: "\<And>c b. P c \<Longrightarrow> P (snd (f c b))" and "P c"
  shows "P (snd (for_buckets f ks c))"
  using \<open>P c\<close>
proof (induction ks arbitrary: c)
  case Nil
  then show ?case by simp
next
  case (Cons b bs)
  obtain r c' where fc: "f c b = (r, c')" by (cases "f c b")
  with step [OF Cons.prems, of b] have "P c'" by simp
  show ?case
  proof (cases r)
    case (Inl e)
    with fc \<open>P c'\<close> show ?thesis by simp
  next
    case (Inr u)
    with fc Cons.IH [OF \<open>P c'\<close>] show ?thesis by simp
  qed
qed

lemma clear_all_preserves:
  assumes step: "\<And>c b. P c \<Longrightarrow> P (snd (self_clear c b))"
    and ev: "\<And>c b. P c \<Longrightarrow> P (c\<lparr>cache := evict (cache c) b force_evict now\<rparr>)"
    and "P c"
  shows "P (snd (clear_all self_clear c force_evict now))"
proof -
  let ?ks = "map fst (cache c)"
  obtain r c' where fb: "for_buckets self_clear ?ks c = (r, c')"
    by (cases "for_buckets self_clear ?ks c")
  have "P (snd (for_buckets self_clear ?ks c))"
    by (rule for_buckets_preserves [where P = P, OF step \<open>P c\<close>])
  with fb have "P c'" by simp
  show ?thesis
  proof (cases r)
    case (Inl e)
    with fb \<open>P c'\<close> show ?thesis by (simp add: clear_all_def)
  next
    case (Inr u)
    with fb ev [OF \<open>P c'\<close>] show ?thesis by (simp add: clear_all_def)
  qed
qed

lemma clear_preserves:
  assumes ev: "\<And>c b. P c \<Longrightarrow> P (c\<lparr>cache := evict (cache c) b force_evict now\<rparr>)"
    and "P c"
  shows "P (snd (clear d c b force_evict now))"
  using \<open>P c\<close>
proof (induction d arbitrary: c b)
  case 0
  show ?case
  proof (cases b)
    case None
    have "P (snd (clear_all (\<lambda>c' k. (Inl RecursionError, c')) c force_evict now))"
      by (rule clear_all_preserves [where P = P]) (simp_all add: ev "0.prems")
    with None show ?thesis by simp
  next
    case (Some k)
    with ev [OF "0.prems", of "Some k"] show ?thesis by (simp add: clear_one_def)
  qed
next
  case (Suc d)
  show ?case
  proof (cases b)
    case None
    have "P (snd (clear_all (\<lambda>c' k. clear d c' k force_evict now) c force_evict now))"
      by (rule clear_all_preserves [where P = P]) (simp_all add: ev Suc.prems Suc.IH)
    with None show ?thesis by simp
  next
    case (Some k)
    with ev [OF Suc.prems, of "Some k"] show ?thesis by (simp add: clear_one_def)
  qed
qed





section \<open>The key \<open>None\<close> in the cache\<close>

lemma clear_none_key_recursion:
  "clear d demo_entered None force_evict now = (Inl RecursionError, demo_entered)"
proof (induction d)
  case 0
  show ?case by (simp add: clear_all_def demo_entered_eq)
next
  case (Suc d)
  then show ?case by (simp add: clear_all_def demo_entered_eq)
qed

lemma evict_rule_idem [simp]:
  "evict_rule force_evict now (evict_rule force_evict now x) = evict_rule force_evict now x"
  by (simp add: evict_rule_def split: option.splits)

lemma evict_rule_None [simp]: "evict_rule force_evict now None = None"
  by (simp add: evict_rule_def)

lemma map_of_evict_rule:
  "map_of (evict ca b force_evict now) =
     (map_of ca)(b := evict_rule force_evict now (map_of ca b))"
  by (auto simp add: map_of_evict evict_rule_def fun_eq_iff split: option.splits)

lemma clear_Some:
  "clear d c (Some k) force_evict now =
     (Inr (), c\<lparr>cache := evict (cache c) (Some k) force_evict now\<rparr>)"
  by (cases d) (simp_all add: clear_one_def)

lemma evict_keeps_None_key:
  "None \<in> fst ` set ca \<Longrightarrow> None \<in> fst ` set (evict ca (Some k) force_evict now)"
  by (auto simp add: evict_def AList.delete_eq image_iff split: option.splits)

lemma for_buckets_raises:
  assumes ih: "\<And>c'. None \<in> fst ` set (cache c') \<Longrightarrow>
                 fst (self_clear c' None) = Inl RecursionError"
    and some: "\<And>c' k. self_clear c' (Some k) =
                 (Inr (), c'\<lparr>cache := evict (cache c') (Some k) force_evict now\<rparr>)"
    and "None \<in> set ks" and "None \<in> fst ` set (cache c)"
  shows "fst (for_buckets self_clear ks c) = Inl RecursionError"
  using assms(3,4)
proof (induction ks arbitrary: c)
  case Nil
  then show ?case by simp
next
  case (Cons b bs)
  show ?case
  proof (cases b)
    case None
    obtain r c' where sc: "self_clear c None = (r, c')" by (cases "self_clear c None")
    with ih [OF Cons.prems(2)] have "r = Inl RecursionError" by simp
    with sc None show ?thesis by simp
  next
    case (Some k)
    let ?c' = "c\<lparr>cache := evict (cache c) (Some k) force_evict now\<rparr>"
    from Cons.prems(1) Some have "None \<in> set bs" by simp
    moreover from Cons.prems(2) have "None \<in> fst ` set (cache ?c')"
      by (simp add: evict_keeps_None_key)
    ultimately have "fst (for_buckets self_clear bs ?c') = Inl RecursionError"
      by (rule Cons.IH)
    with Some show ?thesis by (simp add: some)
  qed
qed

lemma clear_all_raises:
  assumes ih: "\<And>c'. None \<in> fst ` set (cache c') \<Longrightarrow>
                 fst (self_clear c' None) = Inl RecursionError"
    and some: "\<And>c' k. self_clear c' (Some k) =
                 (Inr (), c'\<lparr>cache := evict (cache c') (Some k) force_evict now\<rparr>)"
    and "None \<in> fst ` set (cache c)"
  shows "fst (clear_all self_clear c force_evict now) = Inl RecursionError"
proof -
  let ?ks = "map fst (cache c)"
  obtain r c' where fb: "for_buckets self_clear ?ks c = (r, c')"
    by (cases "for_buckets self_clear ?ks c")
  from assms(3) have "None \<in> set ?ks" by simp
  from for_buckets_raises [of self_clear force_evict now ?ks c, OF ih some this assms(3)] fb
  have "r = Inl RecursionError" by simp
  with fb show ?thesis by (simp add: clear_all_def)
qed

lemma clear_none_key_error:
  "None \<in> fst ` set (cache c) \<Longrightarrow> fst (clear d c None force_evict now) = Inl RecursionError"
proof (induction d arbitrary: c)
  case 0
  have "fst (clear_all (\<lambda>c' k. (Inl RecursionError, c')) c force_evict now) =
          Inl RecursionError"
  proof -
    from "0.prems" obtain b bs where "map fst (cache c) = b # bs"
      by (cases "cache c") auto
    then show ?thesis by (simp add: clear_all_def)
  qed
  then show ?case by simp
next
  case (Suc d)
  have "fst (clear_all (\<lambda>c' k. clear d c' k force_evict now) c force_evict now) =
          Inl RecursionError"
    by (rule clear_all_raises) (simp_all add: Suc.IH Suc.prems clear_Some)
  then show ?case by simp
qed

lemma clear_none_key_stays:
  assumes "None \<in> fst ` set (cache c)"
  shows "None \<in> fst ` set (cache (snd (clear d c b force_evict now)))"
  using assms
proof (induction d arbitrary: c b)
  case 0
  show ?case
  proof (cases b)
    case None
    from "0.prems" obtain k ks where "map fst (cache c) = k # ks"
      by (cases "cache c") auto
    with None "0.prems" show ?thesis by (simp add: clear_all_def)
  next
    case (Some k)
    with "0.prems" show ?thesis by (simp add: clear_Some evict_keeps_None_key)
  qed
next
  case (Suc d)
  show ?case
  proof (cases b)
    case None
    let ?f = "\<lambda>c' k. clear d c' k force_evict now"
    let ?ks = "map fst (cache c)"
    obtain r c' where fb: "for_buckets ?f ?ks c = (r, c')"
      by (cases "for_buckets ?f ?ks c")
    have "None \<in> fst ` set (cache (snd (for_buckets ?f ?ks c)))"
      by (rule for_buckets_preserves [where P = "\<lambda>c. None \<in> fst ` set (cache c)"])
         (simp_all add: Suc.IH Suc.prems)
    with fb have stays: "None \<in> fst ` set (cache c')" by simp
    from Suc.prems have "None \<in> set ?ks" by simp
    from for_buckets_raises [of ?f force_evict now ?ks c, OF _ _ this Suc.prems] fb
    have "r = Inl RecursionError" by (simp add: clear_none_key_error clear_Some)
    with fb None stays show ?thesis by (simp add: clear_all_def)
  next
    case (Some k)
    with Suc.prems show ?thesis by (simp add: clear_Some evict_keeps_None_key)
  qed
qed

text \<open>
  C3, at the input where the code fails: a coordinator that was entered without having
  been called holds a tracker under the key \<open>None\<close>.  On such a cache \<open>clear()\<close>
  without a bucket calls itself with that key, which is falsy, and so takes the loop
  again, until the interpreter raises \<open>RecursionError\<close>, whatever the depth allowed and
  whether forced or not, and an entry under \<open>None\<close> is still there afterwards.
\<close>

theorem clear_none_key_raises:
  "None \<in> fst ` set (cache c) \<Longrightarrow>
   fst (clear d c None force_evict now) = Inl RecursionError \<and>
   None \<in> fst ` set (cache (snd (clear d c None force_evict now)))"
  by (simp add: clear_none_key_error clear_none_key_stays)

theorem clear_none_key_raises_witness:
  "None \<in> fst ` set (cache demo_entered)
   \<and> fst (clear 1000 demo_entered None True 1) = Inl RecursionError
   \<and> snd (clear 1000 demo_entered None True 1) = demo_entered"
  using clear_none_key_raises [of demo_entered 1000 True 1]
        clear_none_key_recursion [of 1000 True 1]
  by (simp add: demo_entered_eq)

section \<open>clear on caches without the key None\<close>

lemma for_buckets_clear_keys:
  assumes "None \<notin> set ks"
  shows "for_buckets (\<lambda>c' b. clear d c' b force_evict now) ks c =
           (Inr (), c\<lparr>cache := fold (\<lambda>b ca. evict ca b force_evict now) ks (cache c)\<rparr>)"
  using assms
proof (induction ks arbitrary: c)
  case Nil
  then show ?case by simp
next
  case (Cons b bs)
  then obtain k where b: "b = Some k" by (cases b) auto
  from Cons.prems have "None \<notin> set bs" by simp
  from Cons.IH [OF this] show ?case
    by (simp add: b clear_Some)
qed

lemma map_of_fold_evict:
  "map_of (fold (\<lambda>b ca. evict ca b force_evict now) ks ca) k =
     (if k \<in> set ks then evict_rule force_evict now (map_of ca k) else map_of ca k)"
proof (induction ks arbitrary: ca)
  case Nil
  then show ?case by simp
next
  case (Cons b bs)
  then show ?case by (simp add: map_of_evict_rule)
qed

lemma map_of_absent_key: "k \<notin> fst ` set al \<Longrightarrow> map_of al k = None"
  by (simp add: map_of_eq_None_iff)

lemma clear_all_keys_rule:
  assumes "None \<notin> fst ` set (cache c)"
  shows "fst (clear (Suc d) c None force_evict now) = Inr ()"
    and "map_of (cache (snd (clear (Suc d) c None force_evict now))) k =
           evict_rule force_evict now (map_of (cache c) k)"
proof -
  let ?ks = "map fst (cache c)"
  let ?ca = "fold (\<lambda>b ca. evict ca b force_evict now) ?ks (cache c)"
  let ?b = "if ?ks = [] then None else last ?ks"
  from assms have "None \<notin> set ?ks" by simp
  then have fb: "for_buckets (\<lambda>c' b. clear d c' b force_evict now) ?ks c =
                   (Inr (), c\<lparr>cache := ?ca\<rparr>)"
    by (rule for_buckets_clear_keys)
  then have cl: "clear (Suc d) c None force_evict now =
                   (Inr (), c\<lparr>cache := evict ?ca ?b force_evict now\<rparr>)"
    by (simp add: clear_all_def Let_def)
  then show "fst (clear (Suc d) c None force_evict now) = Inr ()" by simp
  have all: "map_of ?ca k' = evict_rule force_evict now (map_of (cache c) k')" for k'
    by (cases "k' \<in> set ?ks") (simp_all add: map_of_fold_evict map_of_absent_key)
  have "map_of (evict ?ca ?b force_evict now) k =
          evict_rule force_evict now (map_of (cache c) k)"
    by (simp add: map_of_evict_rule all del: fold_simps)
  with cl show "map_of (cache (snd (clear (Suc d) c None force_evict now))) k =
           evict_rule force_evict now (map_of (cache c) k)"
    by simp
qed

lemma clear_key_rule:
  "fst (clear d c (Some b) force_evict now) = Inr ()"
  "map_of (cache (snd (clear d c (Some b) force_evict now))) =
     (map_of (cache c))(Some b := evict_rule force_evict now (map_of (cache c) (Some b)))"
  by (simp_all add: clear_Some map_of_evict_rule)

section \<open>Bucket resolution\<close>

text \<open>
  C5: \<open>get_bucket\<close> is a function of the strategy and the arguments alone: it returns
  no new state, and its result does not depend on the cache or on the last resolved
  bucket.  Under \<open>all\<close> two calls yield equal keys exactly when both the positional
  values and the keyword mapping agree, under \<open>args\<close> exactly when the positional
  values agree, and under \<open>kwargs\<close> exactly when the keyword mappings agree.
\<close>

theorem get_bucket_deterministic:
  "(bucket c = Bucket_all \<longrightarrow>
      (get_bucket c a k = get_bucket c a' k' \<longleftrightarrow> a = a' \<and> k = k'))
   \<and> (bucket c = Bucket_args \<longrightarrow>
      (get_bucket c a k = get_bucket c a' k' \<longleftrightarrow> a = a'))
   \<and> (bucket c = Bucket_kwargs \<longrightarrow>
      (get_bucket c a k = get_bucket c a' k' \<longleftrightarrow> k = k'))
   \<and> get_bucket (c\<lparr>cache := ca, last_bucket := lb\<rparr>) a k = get_bucket c a k"
  by (simp add: get_bucket_def)

theorem get_bucket_deterministic_witness:
  "bucket demo_cooldown = Bucket_args
   \<and> get_bucket demo_cooldown [1] [''two'' \<mapsto> 2] = get_bucket demo_cooldown [1] Map.empty
   \<and> get_bucket demo_cooldown [1] Map.empty \<noteq> get_bucket demo_cooldown [2] Map.empty
   \<and> get_bucket demo_called [1] Map.empty = Inr key_one"
  using get_bucket_deterministic [where c = demo_cooldown and a = "[1]" and
           k = "[''two'' \<mapsto> 2]" and a' = "[1]" and k' = Map.empty]
        get_bucket_deterministic [where c = demo_cooldown and a = "[1]" and
           k = Map.empty and a' = "[2]" and k' = Map.empty]
        get_bucket_deterministic [where c = demo_cooldown and a = "[1]" and
           k = Map.empty and ca = "cache demo_called" and lb = "last_bucket demo_called"]
  by (simp add: demo_called_eq) (simp add: demo_cooldown_def get_bucket_def key_one_def)

section \<open>Construction and wrapping\<close>

text \<open>
  C6, as amended: wrapping a callable that is not a coroutine function raises
  \<open>RuntimeError\<close> when the decorator is applied, before any call.  The constructor
  checks neither the limit nor the time period: inside a running event loop it returns
  a coordinator with an empty cache for every limit and every time period, and stores
  both as given.
\<close>

theorem construction_validation:
  "(\<not> iscoroutinefunction f \<longrightarrow>
      decorator c f = Inl (RuntimeError ''Expected `func` to be a coroutine'') \<and>
      cooldown True l tp b cid oid f =
        Inl (RuntimeError ''Expected `func` to be a coroutine''))
   \<and> (\<exists>c'. Cooldown_init True l tp bo fn cid oid = Inr c' \<and> limit c' = l \<and>
             time_period c' = tp \<and> cache c' = [])"
  by (simp add: decorator_def cooldown_def Cooldown_init_def)

theorem construction_validation_witness:
  "\<not> iscoroutinefunction demo_sync_func
   \<and> decorator demo_cooldown demo_sync_func =
       Inl (RuntimeError ''Expected `func` to be a coroutine'')
   \<and> cooldown True 2 10 Bucket_args None 7 demo_sync_func =
       (Inl (RuntimeError ''Expected `func` to be a coroutine'') ::
          exn + int Cooldown \<times> (int, int) pycallable)"
  using construction_validation [where f = demo_sync_func and c = demo_cooldown and
          l = 2 and tp = 10 and b = Bucket_args and cid = None and oid = 7 and
          bo = "None :: int CooldownBucket option" and fn = None]
  by (simp add: demo_sync_func_def)

text \<open>
  C6, as stated, fails: with the limit 0 and the time period -1 the constructor and
  the decorator both return normally.
\<close>

theorem construction_nonpositive_counterexample:
  "Cooldown_init True 0 (- 1) None None None 0 =
     Inr (\<lparr>limit = 0, time_period = - 1, cooldown_id = None, func = None,
           bucket = Bucket_all, pending_reset = False, last_bucket = None, cache = [],
           cache_clean_eagerness = 250, self_id = 0\<rparr> :: int Cooldown)
   \<and> cooldown True 0 (- 1) Bucket_args None 0 demo_func =
     Inr (\<lparr>limit = 0, time_period = - 1, cooldown_id = None, func = Some ''test_func'',
           bucket = Bucket_args, pending_reset = False, last_bucket = None, cache = [],
           cache_clean_eagerness = 250, self_id = 0\<rparr>,
          demo_func\<lparr>cooldowns := [0]\<rparr>)"
  by (simp add: Cooldown_init_def cooldown_def decorator_def demo_func_def)

section \<open>The invariant of the cache\<close>

lemma list_all_update:
  "list_all P al \<Longrightarrow> P (k, v) \<Longrightarrow> list_all P (AList.update k v al)"
  by (induction al) auto

lemma list_all_delete: "list_all P al \<Longrightarrow> list_all P (AList.delete k al)"
  by (simp add: AList.delete_eq list_all_iff)

lemma list_all_evict: "list_all P ca \<Longrightarrow> list_all P (evict ca b force_evict now)"
  by (simp add: evict_def list_all_delete split: option.splits)

lemma tracker_aenter_fields:
  "tp_limit (snd (CooldownTimesPer_aenter t now)) = tp_limit t"
  "tp_time_period (snd (CooldownTimesPer_aenter t now)) = tp_time_period t"
  "tp_cooldown (snd (CooldownTimesPer_aenter t now)) = tp_cooldown t"
  by (simp_all add: CooldownTimesPer_aenter_def Let_def)

lemma cache_inv_tracker_for:
  assumes "cache_inv c"
  shows "tp_limit (tracker_for c b) = limit c"
    and "tp_time_period (tracker_for c b) = time_period c"
    and "tp_cooldown (tracker_for c b) = self_id c"
proof -
  have "tp_limit (tracker_for c b) = limit c \<and>
        tp_time_period (tracker_for c b) = time_period c \<and>
        tp_cooldown (tracker_for c b) = self_id c"
  proof (cases "map_of (cache c) b")
    case None
    then show ?thesis by (simp add: tracker_for_def CooldownTimesPer_init_def)
  next
    case (Some t)
    then have "(b, t) \<in> set (cache c)" by (rule map_of_SomeD)
    with assms Some show ?thesis
      by (auto simp add: cache_inv_def list_all_iff tracker_for_def)
  qed
  then show "tp_limit (tracker_for c b) = limit c"
    and "tp_time_period (tracker_for c b) = time_period c"
    and "tp_cooldown (tracker_for c b) = self_id c"
    by simp_all
qed

lemma cache_inv_aenter:
  assumes "cache_inv c"
  shows "cache_inv (snd (aenter c now))"
proof -
  let ?t = "snd (CooldownTimesPer_aenter (tracker_for c (last_bucket c)) now)"
  have c': "snd (aenter c now) = c\<lparr>cache := AList.update (last_bucket c) ?t (cache c)\<rparr>"
    by (simp add: aenter_eq split: prod.splits)
  have "tp_limit ?t = limit c \<and> tp_time_period ?t = time_period c \<and>
        tp_cooldown ?t = self_id c"
    by (simp add: tracker_aenter_fields cache_inv_tracker_for [OF assms])
  with assms show ?thesis
    by (simp add: c' cache_inv_def list_all_update)
qed

lemma cache_inv_get_cooldown_for_bucket:
  assumes "cache_inv c"
  shows "cache_inv (snd (get_cooldown_for_bucket c b raise_on_create))"
  using assms
  by (simp add: get_cooldown_for_bucket_def cache_inv_def Let_def list_all_update
        CooldownTimesPer_init_def split: option.splits)

lemma cache_inv_evict:
  "cache_inv c \<Longrightarrow> cache_inv (c\<lparr>cache := evict (cache c) b force_evict now\<rparr>)"
  by (simp add: cache_inv_def list_all_evict)

lemma cache_inv_clear: "cache_inv c \<Longrightarrow> cache_inv (snd (clear d c b force_evict now))"
  by (rule clear_preserves [where P = cache_inv]) (simp_all add: cache_inv_evict)

lemma cache_inv_keep_buckets_clear:
  "cache_inv c \<Longrightarrow> cache_inv (snd (keep_buckets_clear d c ts))"
proof (induction ts arbitrary: c)
  case Nil
  then show ?case by simp
next
  case (Cons now ts)
  obtain r c' where cl: "clear d c None False now = (r, c')"
    by (cases "clear d c None False now")
  with cache_inv_clear [OF Cons.prems, of d None False now] have "cache_inv c'" by simp
  with cl Cons.IH [of c'] show ?case by (cases r) simp_all
qed

lemma cache_inv_call: "cache_inv (snd (call c a k)) = cache_inv c"
  by (simp add: call_def cache_inv_def split: sum.splits)

lemma remaining_calls_state: "snd (remaining_calls c a k) = c"
  by (simp add: remaining_calls_def get_cooldown_for_bucket_def
           split: sum.splits option.splits)

lemma demo_called_steps:
  "demo_called = snd (aenter (snd (call demo_cooldown [1] Map.empty)) 0)"
  by (simp add: demo_called_def eval_defs)

lemma reachable_demo_called: "reachable demo_called"
proof -
  have "Cooldown_init True 2 10 (Some Bucket_args) None None 7 = Inr demo_cooldown"
    by (simp add: Cooldown_init_def demo_cooldown_def)
  then have "reachable demo_cooldown" by (rule r_init)
  then have "reachable (snd (call demo_cooldown [1] Map.empty))" by (rule r_call)
  then have "reachable (snd (aenter (snd (call demo_cooldown [1] Map.empty)) 0))"
    by (rule r_aenter)
  then show ?thesis by (simp only: demo_called_steps)
qed

text \<open>
  C9: in every state that the constructor and the operations of a coordinator lead to,
  every tracker in the cache has the limit and the time period of the coordinator and
  refers back to it.
\<close>

theorem cache_trackers_from_coordinator: "reachable c \<Longrightarrow> cache_inv c"
proof (induction rule: reachable.induct)
  case (r_init running_loop l tp b f cid oid c)
  then show ?case
    by (auto simp add: Cooldown_init_def cache_inv_def split: if_splits)
next
  case (r_decorator c name)
  then show ?case by (simp add: cache_inv_def)
next
  case (r_call c a k)
  then show ?case by (simp add: cache_inv_call)
next
  case (r_aenter c now)
  then show ?case by (simp add: cache_inv_aenter)
next
  case (r_aexit c)
  then show ?case by (simp add: aexit_def)
next
  case (r_get_cooldown_for_bucket c b raise_on_create)
  then show ?case by (simp add: cache_inv_get_cooldown_for_bucket)
next
  case (r_clear c d b force_evict now)
  then show ?case by (simp add: cache_inv_clear)
next
  case (r_keep_buckets_clear c d ts)
  then show ?case by (simp add: cache_inv_keep_buckets_clear)
next
  case (r_remaining_calls c a k)
  then show ?case by (simp add: remaining_calls_state)
qed

theorem cache_trackers_from_coordinator_witness:
  "reachable demo_called
   \<and> cache demo_called =
       [(Some key_one,
         \<lparr>tp_limit = limit demo_called, tp_time_period = time_period demo_called,
          tp_cooldown = self_id demo_called, consumed = 1, window_start = Some 0,
          window_deadline = Some 10\<rparr>)]
   \<and> cache_inv demo_called"
  using cache_trackers_from_coordinator [OF reachable_demo_called] reachable_demo_called
  by (simp add: demo_called_eq demo_cooldown_def)

end
